theory Spec2Isabelle
  imports Complex_Main "HOL-Library.Sublist" "HOL-Library.AList" "HOL-Library.Multiset"
begin

section \<open>Python strings\<close>

text \<open>
  The leaf identifiers of \<open>forest.py\<close> are Python strings, taken apart only with
  \<open>str.count\<close>, \<open>str.split\<close>, the substring test \<open>in\<close>, \<open>str.strip\<close> and slicing.
  They are modelled on \<open>string\<close> (a list of characters).
\<close>

text \<open>\<open>s.count(c)\<close> for a one-character \<open>c\<close>.\<close>

definition count_char :: "char \<Rightarrow> string \<Rightarrow> nat" where
  "count_char c s = length (filter (\<lambda>x. x = c) s)"

text \<open>
  \<open>s.split(sep)\<close> for a non-empty separator: the fields between the non-overlapping
  occurrences of \<open>sep\<close>, found from the left. \<open>acc\<close> holds the current field reversed.
\<close>

function split_from :: "string \<Rightarrow> string \<Rightarrow> string \<Rightarrow> string list" where
  "split_from sep acc [] = [rev acc]"
| "split_from sep acc (c # cs) =
     (if sep \<noteq> [] \<and> prefix sep (c # cs)
      then rev acc # split_from sep [] (drop (length sep) (c # cs))
      else split_from sep (c # acc) cs)"
  by pat_completeness auto
termination
  by (relation "measure (\<lambda>(sep, acc, s). length s)") auto

definition py_split :: "string \<Rightarrow> string \<Rightarrow> string list" where
  "py_split sep s = split_from sep [] s"

text \<open>\<open>sub in s\<close>: \<open>sub\<close> occurs in \<open>s\<close> as a contiguous substring.\<close>

fun str_contains :: "string \<Rightarrow> string \<Rightarrow> bool" where
  "str_contains sub [] = (sub = [])"
| "str_contains sub (c # cs) = (prefix sub (c # cs) \<or> str_contains sub cs)"

text \<open>
  The organism code of a leaf identifier, as lines 58-61, 105-108 and 305-308 compute it:
  the text before the first \<open>..\<close> when the identifier has one, the text before the first
  underscore otherwise.
\<close>

definition organism :: "string \<Rightarrow> string" where
  "organism name =
     (if str_contains ''..'' name then hd (py_split ''..'' name)
      else hd (py_split ''_'' name))"

section \<open>Errors, directories and trees\<close>

text \<open>
  The exceptions the modelled functions can raise. A \<open>KeyError\<close> records the dictionary
  that raised it (the Taxon Directory \<open>metadata\<close>, the Contamination Directory
  \<open>cont_dict\<close>, or the local \<open>group_perc\<close>) and the missing key. \<open>AttributeError\<close> is
  the call of a method on \<open>None\<close>.
\<close>

datatype dict_id = Metadata | ContDict | GroupPerc

datatype error =
    KeyError dict_id string
  | AttributeError
  | AssertionError
  | ValueError
  | IndexError

record taxon =
  group :: string
  col :: string
  full :: string
  subtax :: string

type_synonym metadata = "string \<rightharpoonup> taxon"

type_synonym cont_dict = "string \<rightharpoonup> (string \<times> string)"

text \<open>
  A node of an ete3 tree: its name, its support and its children; a node without
  children is a leaf. The support is a finite float that the code only compares with 70.
\<close>

datatype tree = Node (name: string) (support: real) (children: "tree list")

definition is_leaf :: "tree \<Rightarrow> bool" where
  "is_leaf n = (children n = [])"

text \<open>\<open>node.get_leaf_names()\<close>: the names of the leaves below the node, in pre-order.\<close>

fun get_leaf_names :: "tree \<Rightarrow> string list" where
  "get_leaf_names (Node n s cs) =
     (if cs = [] then [n] else concat (map get_leaf_names cs))"

text \<open>
  \<open>t.traverse('preorder')\<close>. Each node comes with its chain of ancestors, nearest first:
  the chain is what following \<open>node.up\<close> reaches, and it is empty at the root, whose
  \<open>up\<close> is \<open>None\<close>.
\<close>

fun traverse :: "tree list \<Rightarrow> tree \<Rightarrow> (tree \<times> tree list) list" where
  "traverse ups (Node n s cs) =
     (Node n s cs, ups) # concat (map (traverse (Node n s cs # ups)) cs)"

section \<open>Neighborhood consensus (lines 98-123)\<close>

text \<open>
  The loop of lines 103-114 over the leaf names below \<open>parent\<close>, with the set
  \<open>keywords\<close> kept as a duplicate-free list.
\<close>

fun collect_keywords :: "metadata \<Rightarrow> string \<Rightarrow> string list \<Rightarrow> string list \<Rightarrow> error + string list" where
  "collect_keywords md rank keywords [] = Inr keywords"
| "collect_keywords md rank keywords (leaf # leaves) =
     (if count_char CHR ''_'' leaf \<noteq> 4 then
        (let org = organism leaf in
         if rank = ''group'' then
           (case md org of
              None \<Rightarrow> Inl (KeyError Metadata org)
            | Some r \<Rightarrow> collect_keywords md rank (List.insert (group r) keywords) leaves)
         else if rank = ''subtax'' then
           (case md org of
              None \<Rightarrow> Inl (KeyError Metadata org)
            | Some r \<Rightarrow> collect_keywords md rank (List.insert (subtax r) keywords) leaves)
         else if rank = ''org'' then
           collect_keywords md rank (List.insert org keywords) leaves
         else collect_keywords md rank keywords leaves)
      else collect_keywords md rank keywords leaves)"

text \<open>
  \<open>expected_neighborhood(parent, cont_key_rank)\<close>. The first argument is the chain that
  starts at \<open>parent\<close>; the empty chain is \<open>parent = None\<close>, where
  \<open>parent.get_leaf_names()\<close> raises.
\<close>

fun expected_neighborhood :: "metadata \<Rightarrow> tree list \<Rightarrow> string \<times> string \<Rightarrow> error + bool" where
  "expected_neighborhood md [] (key, rank) =
     (if rank \<notin> {''group'', ''subtax'', ''org''} then Inl AssertionError
      else Inl AttributeError)"
| "expected_neighborhood md (parent # ups) (key, rank) =
     (if rank \<notin> {''group'', ''subtax'', ''org''} then Inl AssertionError
      else
        (case collect_keywords md rank [] (get_leaf_names parent) of
           Inl e \<Rightarrow> Inl e
         | Inr keywords \<Rightarrow>
             if keywords \<noteq> [] then
               (if length keywords = 1 then
                  (if str_contains key (hd keywords) then Inr True else Inr False)
                else Inr False)
             else expected_neighborhood md ups (key, rank)))"


section \<open>Contamination pass (lines 126-153)\<close>

text \<open>
  \<open>check_contamination(node, cont_dict)\<close>; the node is passed with its chain of ancestors,
  so that \<open>node.up\<close> is the chain itself.
\<close>

definition check_contamination :: "metadata \<Rightarrow> tree \<times> tree list \<Rightarrow> cont_dict \<Rightarrow> error + bool" where
  "check_contamination md node_ups cd =
     (let org = hd (py_split ''_'' (name (fst node_ups))) in
      case cd org of
        None \<Rightarrow> Inl (KeyError ContDict org)
      | Some ckr \<Rightarrow>
          (case expected_neighborhood md (snd node_ups) ckr of
             Inl e \<Rightarrow> Inl e
           | Inr b \<Rightarrow> if b then Inr True else Inr False))"

text \<open>
  The loop of lines 141-152 over the pre-order traversal, with the two result sets as
  the state. \<open>parts[-3]\<close>, \<open>parts[-2]\<close> and \<open>parts[-1]\<close> index from the end of the split name.
\<close>

fun collect_loop ::
  "metadata \<Rightarrow> cont_dict \<Rightarrow> (tree \<times> tree list) list \<Rightarrow> string set \<times> string set
     \<Rightarrow> error + (string set \<times> string set)" where
  "collect_loop md cd [] acc = Inr acc"
| "collect_loop md cd (node_ups # rest) acc =
     (if is_leaf (fst node_ups) then
        (if count_char CHR ''_'' (name (fst node_ups)) = 4 then
           (let nm = name (fst node_ups);
                parts = py_split ''_'' nm;
                org = hd parts;
                quality = parts ! (length parts - 3) @ ''_'' @ parts ! (length parts - 2)
                            @ ''_'' @ parts ! (length parts - 1)
            in case md org of
                 None \<Rightarrow> Inl (KeyError Metadata org)
               | Some r \<Rightarrow>
                   (let table_name = full r @ ''_'' @ quality @ ''@'' @ org in
                    if org \<in> dom cd then
                      (case check_contamination md node_ups cd of
                         Inl e \<Rightarrow> Inl e
                       | Inr b \<Rightarrow>
                           if b then collect_loop md cd rest
                                       (insert nm (fst acc), insert table_name (snd acc))
                           else collect_loop md cd rest acc)
                    else collect_loop md cd rest acc))
         else collect_loop md cd rest acc)
      else collect_loop md cd rest acc)"

text \<open>
  \<open>collect_contaminations\<close> on the tree as \<open>set_outgroup\<close> leaves it (the midpoint rooting
  is ete3's); the result is \<open>(contaminations, cont_table_name)\<close>.
\<close>

definition collect_contaminations ::
  "metadata \<Rightarrow> cont_dict \<Rightarrow> tree \<Rightarrow> error + (string set \<times> string set)" where
  "collect_contaminations md cd t = collect_loop md cd (traverse [] t) ({}, {})"

section \<open>Suspicious clades (lines 42-65)\<close>






section \<open>Best candidates (lines 68-86)\<close>

text \<open>
  \<open>str.isspace\<close> on the code points below 256, and \<open>str.strip()\<close>, which removes the
  characters of that set from both ends.
\<close>

definition is_space :: "char \<Rightarrow> bool" where
  "is_space c = ((of_char c :: nat) \<in> {9, 10, 11, 12, 13, 28, 29, 30, 31, 32, 133, 160})"

definition py_strip :: "string \<Rightarrow> string" where
  "py_strip s = rev (dropWhile is_space (rev (dropWhile is_space s)))"

text \<open>
  \<open>int(s)\<close> in base 10, on a string without underscores (the argument of line 75 is cut
  from a field of \<open>split('_')\<close>). The whitespace that \<open>int\<close> skips at both ends is a
  smaller set than that of \<open>str.strip()\<close>: the separators 28 to 31 are not skipped and
  make \<open>int\<close> raise. After the whitespace comes an optional sign, then one or more
  decimal digits, at most 4300 of them (CPython's default \<open>sys.int_max_str_digits\<close>;
  leading zeros count, the sign does not). \<open>None\<close> is the \<open>ValueError\<close>.
\<close>

definition is_int_space :: "char \<Rightarrow> bool" where
  "is_int_space c = ((of_char c :: nat) \<in> {9, 10, 11, 12, 13, 32, 133, 160})"

definition int_strip :: "string \<Rightarrow> string" where
  "int_strip s = rev (dropWhile is_int_space (rev (dropWhile is_int_space s)))"

definition is_digit :: "char \<Rightarrow> bool" where
  "is_digit c = (48 \<le> (of_char c :: nat) \<and> (of_char c :: nat) \<le> 57)"

fun parse_digits :: "int \<Rightarrow> string \<Rightarrow> int option" where
  "parse_digits acc [] = Some acc"
| "parse_digits acc (c # cs) =
     (if is_digit c then parse_digits (acc * 10 + (int (of_char c) - 48)) cs else None)"

definition parse_decimal :: "string \<Rightarrow> int option" where
  "parse_decimal ds = (if ds = [] \<or> length ds > 4300 then None else parse_digits 0 ds)"

definition py_int :: "string \<Rightarrow> int option" where
  "py_int s =
     (case int_strip s of
        [] \<Rightarrow> None
      | c # cs \<Rightarrow>
          if c = CHR ''-'' then map_option uminus (parse_decimal cs)
          else if c = CHR ''+'' then parse_decimal cs
          else parse_decimal (c # cs))"

text \<open>
  The loop of lines 71-82. The dictionary \<open>top_rank\<close> is an association list in insertion
  order, from the organism to the pair of its \<open>rank\<close> and \<open>candidate\<close> entries;
  \<open>rank[1:-1]\<close> is \<open>butlast (tl rank)\<close>.
\<close>

fun best_loop ::
  "tree list \<Rightarrow> (string \<times> (int \<times> string)) list \<Rightarrow> error + (string \<times> (int \<times> string)) list" where
  "best_loop [] top_rank = Inr top_rank"
| "best_loop (node # rest) top_rank =
     (if is_leaf node then
        (if count_char CHR ''_'' (name node) = 4 then
           (case py_split ''_'' (name node) of
              [org, f1, f2, rank, f4] \<Rightarrow>
                (case py_int (butlast (tl rank)) of
                   None \<Rightarrow> Inl ValueError
                 | Some rank' \<Rightarrow>
                     (case map_of top_rank org of
                        None \<Rightarrow> best_loop rest (AList.update org (rank', name node) top_rank)
                      | Some best \<Rightarrow>
                          if rank' < fst best
                          then best_loop rest (AList.update org (rank', name node) top_rank)
                          else best_loop rest top_rank))
            | _ \<Rightarrow> Inl ValueError)
         else best_loop rest top_rank)
      else best_loop rest top_rank)"

definition get_best_candidates :: "tree \<Rightarrow> error + string set" where
  "get_best_candidates t =
     (case best_loop (map fst (traverse [] t)) [] of
        Inl e \<Rightarrow> Inl e
      | Inr top_rank \<Rightarrow> Inr (set (map (\<lambda>entry. snd (snd entry)) top_rank)))"

section \<open>Redundancy reduction (lines 283-297)\<close>

text \<open>
  The loop of lines 289-296 over \<open>sorted_sets\<close>: the set at position \<open>i\<close> is redundant when
  it is a subset of one of \<open>sorted_sets[i+1:]\<close>.
\<close>

fun reduce_sets :: "string set list \<Rightarrow> string set list" where
  "reduce_sets [] = []"
| "reduce_sets (cur # others) =
     (if list_ex (\<lambda>other. cur \<subseteq> other) others then reduce_sets others
      else cur # reduce_sets others)"

text \<open>\<open>sorted(clades, key=len)\<close> is a stable sort, as \<open>sort_key\<close> is.\<close>

fun nonredundant :: "string list list list \<Rightarrow> string set list" where
  "nonredundant [] = []"
| "nonredundant (clades # rest) =
     (if clades \<noteq> [] then reduce_sets (map set (sort_key length clades)) else [])
       @ nonredundant rest"

section \<open>Problematic organisms (lines 300-323)\<close>

type_synonym table = "string \<rightharpoonup> string list"

text \<open>\<open>problematic_orgs_[org].append(x)\<close> on a \<open>defaultdict(list)\<close>.\<close>

definition append_entry :: "table \<Rightarrow> string \<Rightarrow> string \<Rightarrow> table" where
  "append_entry tbl org x = tbl(org \<mapsto> (case tbl org of None \<Rightarrow> [] | Some l \<Rightarrow> l) @ [x])"

text \<open>The loop of lines 304-309.\<close>

fun clade_taxons :: "metadata \<Rightarrow> string list \<Rightarrow> error + string list" where
  "clade_taxons md [] = Inr []"
| "clade_taxons md (leaf # leaves) =
     (let org = organism leaf in
      case md org of
        None \<Rightarrow> Inl (KeyError Metadata org)
      | Some r \<Rightarrow>
          (case clade_taxons md leaves of
             Inl e \<Rightarrow> Inl e
           | Inr taxons \<Rightarrow> Inr (group r # taxons)))"

text \<open>
  Lines 310-312: the dictionary \<open>group_perc\<close>, filled in the iteration order \<open>order\<close> of
  \<open>set(taxons)\<close>. The percentage is a float in the source; for a clade of fewer than
  \<open>2^50\<close> leaves the double \<open>(c/n)*100\<close> equals 50 exactly when \<open>2*c = n\<close> and is strictly
  increasing in \<open>c\<close>, so the comparisons of lines 313 and 319 agree with the exact ones.
\<close>

definition group_perc :: "string list \<Rightarrow> string list \<Rightarrow> (string \<times> real) list" where
  "group_perc order taxons =
     map (\<lambda>tax. (tax, (real (count_list taxons tax) / real (length taxons)) * 100)) order"

text \<open>
  \<open>max(d, key=d.get)\<close>: the first key, in the dictionary's order, whose value is
  maximal; \<open>ValueError\<close> on an empty dictionary.
\<close>

fun max_loop :: "('a \<times> real) \<Rightarrow> ('a \<times> real) list \<Rightarrow> 'a" where
  "max_loop best [] = fst best"
| "max_loop best (kv # rest) = max_loop (if snd kv > snd best then kv else best) rest"

definition py_max_key :: "('a \<times> real) list \<Rightarrow> error + 'a" where
  "py_max_key d = (case d of [] \<Rightarrow> Inl ValueError | kv # rest \<Rightarrow> Inr (max_loop kv rest))"

text \<open>The loop of lines 314-322.\<close>

fun label_loop ::
  "metadata \<Rightarrow> (string \<times> real) list \<Rightarrow> string \<Rightarrow> string list \<Rightarrow> table \<Rightarrow> error + table" where
  "label_loop md gp max_perc [] tbl = Inr tbl"
| "label_loop md gp max_perc (seq # rest) tbl =
     (let org = organism seq in
      case md org of
        None \<Rightarrow> Inl (KeyError Metadata org)
      | Some r \<Rightarrow>
          (case map_of gp (group r) of
             None \<Rightarrow> Inl (KeyError GroupPerc (group r))
           | Some perc \<Rightarrow>
               label_loop md gp max_perc rest
                 (append_entry tbl org (if perc = 50 then ''unspecified'' else max_perc))))"

text \<open>
  \<open>problematic\<close>. A clade is a Python set: it is given as the list of its members in the
  order the two loops iterate it. \<open>set_iter taxons\<close> is the order in which Python iterates
  \<open>set(taxons)\<close>, a parameter of the model.
\<close>

fun problematic_loop ::
  "(string list \<Rightarrow> string list) \<Rightarrow> metadata \<Rightarrow> string list list \<Rightarrow> table \<Rightarrow> error + table" where
  "problematic_loop set_iter md [] tbl = Inr tbl"
| "problematic_loop set_iter md (clade # rest) tbl =
     (case clade_taxons md clade of
        Inl e \<Rightarrow> Inl e
      | Inr taxons \<Rightarrow>
          (let gp = group_perc (set_iter taxons) taxons in
           case py_max_key gp of
             Inl e \<Rightarrow> Inl e
           | Inr max_perc \<Rightarrow>
               (case label_loop md gp max_perc clade tbl of
                  Inl e \<Rightarrow> Inl e
                | Inr tbl' \<Rightarrow> problematic_loop set_iter md rest tbl')))"

definition problematic ::
  "(string list \<Rightarrow> string list) \<Rightarrow> metadata \<Rightarrow> string list list \<Rightarrow> error + table" where
  "problematic set_iter md nonredundant_clades = problematic_loop set_iter md nonredundant_clades Map.empty"

section \<open>Backpropagation (lines 354-372)\<close>

text \<open>A row of the classification table as \<open>tree_to_pdf\<close> writes it (lines 228-264).\<close>

definition table_row :: "string \<Rightarrow> string \<Rightarrow> string \<Rightarrow> string" where
  "table_row nm grp status = nm @ [CHR 0x09] @ grp @ [CHR 0x09] @ status @ [CHR 0x0A]"

text \<open>The body of the loop, lines 365-372: the line written for one line read.\<close>

definition backpropagate_line :: "string set \<Rightarrow> string \<Rightarrow> error + string" where
  "backpropagate_line cont_names line =
     (let sline = py_split [CHR 0x09] line in
      if length sline < 3 then Inl IndexError
      else
        (let nm = sline ! 0;
             tax = sline ! 1;
             status = py_strip (sline ! 2);
             status' = (if nm \<in> cont_names then ''d'' else status)
         in Inr (nm @ [CHR 0x09] @ tax @ [CHR 0x09] @ status' @ [CHR 0x0A])))"

text \<open>
  \<open>backpropagate_contamination\<close> on the lines that \<open>readlines()\<close> returned; the result is
  the list of lines written back.
\<close>

fun backpropagate_contamination :: "string list \<Rightarrow> string set \<Rightarrow> error + string list" where
  "backpropagate_contamination [] cont_names = Inr []"
| "backpropagate_contamination (line # original_table) cont_names =
     (case backpropagate_line cont_names line of
        Inl e \<Rightarrow> Inl e
      | Inr out \<Rightarrow>
          (case backpropagate_contamination original_table cont_names of
             Inl e \<Rightarrow> Inl e
           | Inr outs \<Rightarrow> Inr (out # outs)))"

section \<open>Notions used to state the properties\<close>

text \<open>
  The keyword a leaf of organism \<open>org\<close> contributes at a rank level, and the keyword set
  of a list of leaf names: the keywords of the leaves that are not Ranked Candidates
  (whose names do not have exactly four underscores).
\<close>

definition resolve_keyword :: "metadata \<Rightarrow> string \<Rightarrow> string \<Rightarrow> string option" where
  "resolve_keyword md rank org =
     (if rank = ''group'' then map_option group (md org)
      else if rank = ''subtax'' then map_option subtax (md org)
      else if rank = ''org'' then Some org
      else None)"

definition keyword_set :: "metadata \<Rightarrow> string \<Rightarrow> string list \<Rightarrow> string set" where
  "keyword_set md rank leaves =
     {k. \<exists>leaf \<in> set leaves. count_char CHR ''_'' leaf \<noteq> 4
           \<and> resolve_keyword md rank (organism leaf) = Some k}"

text \<open>
  The condition under which the loop of \<open>collect_contaminations\<close> adds a leaf, and the
  names of the leaves of a traversal that meet it.
\<close>

definition flagged :: "metadata \<Rightarrow> cont_dict \<Rightarrow> tree \<times> tree list \<Rightarrow> bool" where
  "flagged md cd node_ups =
     (is_leaf (fst node_ups) \<and> count_char CHR ''_'' (name (fst node_ups)) = 4
      \<and> (\<exists>ckr. cd (hd (py_split ''_'' (name (fst node_ups)))) = Some ckr
             \<and> expected_neighborhood md (snd node_ups) ckr = Inr True))"

definition flagged_names :: "metadata \<Rightarrow> cont_dict \<Rightarrow> (tree \<times> tree list) list \<Rightarrow> string set" where
  "flagged_names md cd xs = set (map (\<lambda>x. name (fst x)) (filter (flagged md cd) xs))"

text \<open>
  The nodes of a tree in pre-order, and the taxonomic groups of a clade: the groups that
  the Taxon Directory gives for the organism codes of its members.
\<close>

fun subtrees :: "tree \<Rightarrow> tree list" where
  "subtrees (Node n s cs) = Node n s cs # concat (map subtrees cs)"


text \<open>
  The Ranked-Candidate leaf names of a tree in pre-order, and the organism code and the
  rank that line 74-75 read from such a name.
\<close>

definition candidate_names :: "tree \<Rightarrow> string list" where
  "candidate_names t = filter (\<lambda>nm. count_char CHR ''_'' nm = 4) (get_leaf_names t)"


definition candidate_rank :: "string \<Rightarrow> int option" where
  "candidate_rank nm = py_int (butlast (tl (py_split ''_'' nm ! 3)))"



text \<open>
  The reduction read with a strictly larger clade: a clade of the sorted list is dropped
  when it is a subset of a later clade that has more members. \<open>nonredundant_larger\<close>
  is \<open>nonredundant\<close> with this test in place of the test of line 293.
\<close>

fun reduce_larger :: "string list list \<Rightarrow> string set list" where
  "reduce_larger [] = []"
| "reduce_larger (clade # later) =
     (if list_ex (\<lambda>other. length clade < length other \<and> set clade \<subseteq> set other) later
      then reduce_larger later
      else set clade # reduce_larger later)"

definition nonredundant_larger :: "string list list list \<Rightarrow> string set list" where
  "nonredundant_larger result_clades =
     concat (map (\<lambda>clades. reduce_larger (sort_key length clades)) result_clades)"

text \<open>
  For the problematic-organism table: the list an organism has in the table (empty
  without an entry), the group of a clade member that the Taxon Directory knows, the
  percentage share of a group among the members of a clade, and the dominant group
  as line 313 computes it from the groups of the members.
\<close>

definition entry :: "table \<Rightarrow> string \<Rightarrow> string list" where
  "entry tbl org = (case tbl org of None \<Rightarrow> [] | Some l \<Rightarrow> l)"

definition member_group :: "metadata \<Rightarrow> string \<Rightarrow> string" where
  "member_group md leaf = group (the (md (organism leaf)))"

definition share :: "metadata \<Rightarrow> string list \<Rightarrow> string \<Rightarrow> real" where
  "share md clade g =
     (real (count_list (map (member_group md) clade) g) / real (length clade)) * 100"

definition dominant :: "(string list \<Rightarrow> string list) \<Rightarrow> metadata \<Rightarrow> string list \<Rightarrow> string" where
  "dominant set_iter md clade =
     (let taxons = map (member_group md) clade;
          gp = group_perc (set_iter taxons) taxons
      in max_loop (hd gp) (tl gp))"

section \<open>Example data\<close>

definition example_metadata :: metadata where
  "example_metadata =
     [''A'' \<mapsto> \<lparr>group = ''Alpha'', col = ''red'', full = ''Aus aus'', subtax = ''Alphaone''\<rparr>,
      ''B'' \<mapsto> \<lparr>group = ''Alpha'', col = ''red'', full = ''Bus bus'', subtax = ''Alphatwo''\<rparr>,
      ''C'' \<mapsto> \<lparr>group = ''Beta'', col = ''blue'', full = ''Cus cus'', subtax = ''Betaone''\<rparr>,
      ''D'' \<mapsto> \<lparr>group = ''Beta'', col = ''blue'', full = ''Dus dus'', subtax = ''Betatwo''\<rparr>,
      ''X'' \<mapsto> \<lparr>group = ''Alpha'', col = ''red'', full = ''Xus xus'', subtax = ''Alphaone''\<rparr>]"

text \<open>A clade of two Beta leaves (one of them a paralog) and a candidate of \<open>X\<close>.\<close>

definition beta_clade :: tree where
  "beta_clade = Node [] 100 [Node ''C_300'' 1 [], Node ''D..p1_200'' 1 [], Node ''X_hit_0_r1q_0'' 1 []]"

text \<open>A clade that mixes an Alpha leaf and a Beta leaf.\<close>

definition mixed_clade :: tree where
  "mixed_clade = Node [] 80 [Node ''A_100'' 1 [], Node ''C_300'' 1 []]"

text \<open>
  A rooted tree with the clade \<open>beta_clade\<close> on one side and two Alpha leaves on the other, and
  two Contamination Directories for the organism \<open>X\<close>.
\<close>

definition example_tree :: tree where
  "example_tree =
     Node [] 1 [beta_clade, Node [] 100 [Node ''A_100'' 1 [], Node ''B_100'' 1 []]]"

definition alpha_directory :: cont_dict where
  "alpha_directory = [''X'' \<mapsto> (''Alpha'', ''group'')]"

definition beta_directory :: cont_dict where
  "beta_directory = [''X'' \<mapsto> (''Beta'', ''group'')]"

text \<open>A rooted tree all of whose leaves are Ranked Candidates.\<close>

definition candidates_only_tree :: tree where
  "candidates_only_tree =
     Node [] 1
       [Node [] 100 [Node ''X_hit_0_r1q_0'' 1 [], Node ''A_hit_0_r1q_0'' 1 []],
        Node [] 100 [Node ''B_hit_0_r1q_0'' 1 [], Node ''C_hit_0_r1q_0'' 1 []]]"



section \<open>Facts about the string functions\<close>

lemma split_from_length: "length (split_from [c] acc s) = count_char c s + 1"
  by (induction s arbitrary: acc) (auto simp: count_char_def)

lemma py_split_length: "length (py_split [c] s) = count_char c s + 1"
  by (simp add: py_split_def split_from_length)

lemma candidate_fields:
  assumes "count_char CHR ''_'' nm = 4"
  shows "\<exists>org f1 f2 rank f4. py_split ''_'' nm = [org, f1, f2, rank, f4]"
proof -
  have "length (py_split ''_'' nm) = 5" using assms py_split_length[of "CHR ''_''" nm] by simp
  then show ?thesis
    by (auto simp: length_Suc_conv eval_nat_numeral)
qed

text \<open>
  \<open>int\<close> skips a space or a no-break space around the digits, and takes a sign; it
  raises on a separator character that \<open>str.strip()\<close> would remove, on an empty string, on
  a lone sign and on more than 4300 digits.
\<close>

lemma py_int_accepts:
  "py_int '' 12 '' = Some 12" "py_int (CHR 0xA0 # ''7'') = Some 7"
  "py_int ''-3'' = Some (- 3)" "py_int ''+007'' = Some 7"
  by (simp_all add: py_int_def int_strip_def is_int_space_def parse_decimal_def is_digit_def)

lemma py_int_rejects:
  "py_int (CHR 0x1C # ''1'') = None" "py_int (''7'' @ [CHR 0x1F]) = None"
  "py_int [] = None" "py_int ''-'' = None" "py_int ''+ 1'' = None" "py_int ''1.0'' = None"
  by (simp_all add: py_int_def int_strip_def is_int_space_def parse_decimal_def is_digit_def)

lemma parse_decimal_limit: "length ds > 4300 \<Longrightarrow> parse_decimal ds = None"
  by (simp add: parse_decimal_def)

lemma separator_is_space_not_int_space: "is_space (CHR 0x1C) \<and> \<not> is_int_space (CHR 0x1C)"
  by (simp add: is_space_def is_int_space_def)

section \<open>The consensus test\<close>

lemma str_contains_sublist: "str_contains sub s = sublist sub s"
  by (induction s) (simp_all add: sublist_Cons_right)

lemma keyword_set_Nil: "keyword_set md rank [] = {}"
  by (simp add: keyword_set_def)

lemma keyword_set_Cons:
  "keyword_set md rank (leaf # leaves) =
     (if count_char CHR ''_'' leaf \<noteq> 4
      then (case resolve_keyword md rank (organism leaf) of None \<Rightarrow> {} | Some k \<Rightarrow> {k})
      else {}) \<union> keyword_set md rank leaves"
  by (auto simp: keyword_set_def split: option.splits)

lemma collect_keywords_ok:
  assumes "rank \<in> {''group'', ''subtax'', ''org''}"
      and "\<forall>leaf \<in> set leaves. count_char CHR ''_'' leaf \<noteq> 4
             \<longrightarrow> resolve_keyword md rank (organism leaf) \<noteq> None"
      and "distinct kws"
  shows "\<exists>ks. collect_keywords md rank kws leaves = Inr ks \<and> distinct ks
           \<and> set ks = set kws \<union> keyword_set md rank leaves"
  using assms
proof (induction leaves arbitrary: kws)
  case Nil
  then show ?case by (simp add: keyword_set_Nil)
next
  case (Cons leaf leaves)
  show ?case
  proof (cases "count_char CHR ''_'' leaf \<noteq> 4")
    case False
    then show ?thesis using Cons.IH[of kws] Cons.prems
      by (simp add: keyword_set_Cons)
  next
    case True
    then obtain k where k: "resolve_keyword md rank (organism leaf) = Some k"
      using Cons.prems(2) by auto
    have d: "distinct (List.insert k kws)" using Cons.prems(3) by simp
    have step: "collect_keywords md rank kws (leaf # leaves)
                  = collect_keywords md rank (List.insert k kws) leaves"
      using True k Cons.prems(1)
      by (auto simp: resolve_keyword_def Let_def split: if_splits option.splits)
    from Cons.IH[OF Cons.prems(1) _ d] Cons.prems(2)
    obtain ks where "collect_keywords md rank (List.insert k kws) leaves = Inr ks"
      "distinct ks" "set ks = set (List.insert k kws) \<union> keyword_set md rank leaves"
      by auto
    then show ?thesis using step True k
      by (auto simp: keyword_set_Cons)
  qed
qed

text \<open>
  C8. In the consensus test at an ancestor \<open>parent\<close> (with any chain \<open>ups\<close> above it),
  for a valid rank level and leaves whose keywords resolve: when the keyword set of the
  Simple and Paralog leaves below \<open>parent\<close> is a single keyword \<open>k\<close>, the test returns
  true exactly when the expected keyword \<open>key\<close> is a substring of \<open>k\<close>; when the keyword
  set has more than one element, the test returns false.
\<close>

theorem expected_neighborhood_consensus:
  assumes "rank \<in> {''group'', ''subtax'', ''org''}"
      and "\<forall>leaf \<in> set (get_leaf_names parent). count_char CHR ''_'' leaf \<noteq> 4
             \<longrightarrow> resolve_keyword md rank (organism leaf) \<noteq> None"
  shows "(\<forall>k. keyword_set md rank (get_leaf_names parent) = {k}
            \<longrightarrow> expected_neighborhood md (parent # ups) (key, rank)
                  = Inr (\<exists>p q. k = p @ key @ q))
       \<and> (card (keyword_set md rank (get_leaf_names parent)) > 1
            \<longrightarrow> expected_neighborhood md (parent # ups) (key, rank) = Inr False)"
proof -
  let ?K = "keyword_set md rank (get_leaf_names parent)"
  from collect_keywords_ok[OF assms(1) assms(2), of "[]"]
  obtain ks where ks: "collect_keywords md rank [] (get_leaf_names parent) = Inr ks"
    "distinct ks" "set ks = ?K" by auto
  have len: "length ks = card ?K" using ks(2,3) distinct_card by fastforce
  have one: "expected_neighborhood md (parent # ups) (key, rank) = Inr (\<exists>p q. k = p @ key @ q)"
    if "?K = {k}" for k
  proof -
    from that len have "length ks = 1" by simp
    then obtain x where "ks = [x]" by (cases ks) auto
    with ks(3) that have "ks = [k]" by auto
    then show ?thesis using ks(1) assms(1)
      by (auto simp: str_contains_sublist sublist_def)
  qed
  have many: "expected_neighborhood md (parent # ups) (key, rank) = Inr False"
    if "card ?K > 1"
  proof -
    from that len have "length ks > 1" by simp
    then show ?thesis using ks(1) assms(1) by (cases ks) auto
  qed
  show ?thesis using one many by blast
qed

theorem expected_neighborhood_consensus_witness:
  "keyword_set example_metadata ''group'' (get_leaf_names beta_clade) = {''Beta''}
   \<and> expected_neighborhood example_metadata [beta_clade] (''Bet'', ''group'') = Inr True
   \<and> card (keyword_set example_metadata ''group'' (get_leaf_names mixed_clade)) > 1
   \<and> expected_neighborhood example_metadata [mixed_clade] (''Alpha'', ''group'') = Inr False"
proof -
  have r: "''group'' \<in> {''group'', ''subtax'', ''org''}" by simp
  have K1: "keyword_set example_metadata ''group'' (get_leaf_names beta_clade) = {''Beta''}"
    by (simp add: keyword_set_Cons keyword_set_Nil beta_clade_def example_metadata_def
        resolve_keyword_def organism_def py_split_def count_char_def)
  have K2: "keyword_set example_metadata ''group'' (get_leaf_names mixed_clade) = {''Alpha'', ''Beta''}"
    by (auto simp add: keyword_set_Cons keyword_set_Nil mixed_clade_def example_metadata_def
        resolve_keyword_def organism_def py_split_def count_char_def)
  have h1: "\<forall>leaf \<in> set (get_leaf_names beta_clade). count_char CHR ''_'' leaf \<noteq> 4
             \<longrightarrow> resolve_keyword example_metadata ''group'' (organism leaf) \<noteq> None"
    by (simp add: beta_clade_def example_metadata_def
        resolve_keyword_def organism_def py_split_def count_char_def)
  have h2: "\<forall>leaf \<in> set (get_leaf_names mixed_clade). count_char CHR ''_'' leaf \<noteq> 4
             \<longrightarrow> resolve_keyword example_metadata ''group'' (organism leaf) \<noteq> None"
    by (simp add: mixed_clade_def example_metadata_def
        resolve_keyword_def organism_def py_split_def count_char_def)
  have sub: "\<exists>p q. ''Beta'' = p @ ''Bet'' @ q"
    by (rule exI[of _ "[]"], rule exI[of _ "''a''"]) simp
  have c2: "card (keyword_set example_metadata ''group'' (get_leaf_names mixed_clade)) > 1"
    by (simp add: K2)
  from expected_neighborhood_consensus[OF r h1, of "[]" "''Bet''"] K1 sub
  have e1: "expected_neighborhood example_metadata [beta_clade] (''Bet'', ''group'') = Inr True"
    by simp
  from expected_neighborhood_consensus[OF r h2, of "[]" "''Alpha''"] c2
  have e2: "expected_neighborhood example_metadata [mixed_clade] (''Alpha'', ''group'') = Inr False"
    by simp
  show ?thesis using K1 e1 c2 e2 by simp
qed

section \<open>The contamination pass\<close>

lemma flagged_names_Nil: "flagged_names md cd [] = {}"
  by (simp add: flagged_names_def)

lemma flagged_names_Cons:
  "flagged_names md cd (x # xs) =
     (if flagged md cd x then {name (fst x)} else {}) \<union> flagged_names md cd xs"
  unfolding flagged_names_def by simp

lemma collect_loop_step_flagged:
  assumes "flagged md cd x" and "collect_loop md cd (x # xs) acc = Inr res"
  shows "\<exists>tn. collect_loop md cd xs (insert (name (fst x)) (fst acc), tn) = Inr res"
proof -
  from assms(1) obtain ckr where c: "is_leaf (fst x)" "count_char CHR ''_'' (name (fst x)) = 4"
      "cd (hd (py_split ''_'' (name (fst x)))) = Some ckr"
      "expected_neighborhood md (snd x) ckr = Inr True"
    by (auto simp: flagged_def)
  have cc: "check_contamination md x cd = Inr True"
    using c by (simp add: check_contamination_def)
  have d: "hd (py_split ''_'' (name (fst x))) \<in> dom cd" using c(3) by auto
  show ?thesis using assms(2) c(1,2) cc d
    by (auto simp add: Let_def split: option.splits)
qed

lemma collect_loop_step_unflagged:
  assumes "\<not> flagged md cd x" and "collect_loop md cd (x # xs) acc = Inr res"
  shows "collect_loop md cd xs acc = Inr res"
proof (cases "is_leaf (fst x) \<and> count_char CHR ''_'' (name (fst x)) = 4")
  case False
  then show ?thesis using assms(2) by (auto split: if_splits)
next
  case True
  let ?org = "hd (py_split ''_'' (name (fst x)))"
  show ?thesis
  proof (cases "cd ?org")
    case None
    then have "?org \<notin> dom cd" by auto
    then show ?thesis using assms(2) True
      by (simp add: Let_def split: option.splits)
  next
    case (Some ckr)
    then have d: "?org \<in> dom cd" by auto
    have ne: "expected_neighborhood md (snd x) ckr \<noteq> Inr True"
      using assms(1) True Some by (auto simp: flagged_def)
    have "check_contamination md x cd \<noteq> Inr True"
      using ne Some by (auto simp: check_contamination_def split: sum.splits if_splits)
    then show ?thesis using assms(2) True d
      by (simp add: Let_def split: option.splits sum.splits if_splits)
  qed
qed

lemma collect_loop_fst:
  "collect_loop md cd xs acc = Inr res \<Longrightarrow> fst res = fst acc \<union> flagged_names md cd xs"
proof (induction xs arbitrary: acc)
  case Nil
  then show ?case by (auto simp: flagged_names_Nil)
next
  case (Cons x xs)
  show ?case
  proof (cases "flagged md cd x")
    case True
    from collect_loop_step_flagged[OF True Cons.prems] obtain tn where
      "collect_loop md cd xs (insert (name (fst x)) (fst acc), tn) = Inr res" by blast
    from Cons.IH[OF this] True show ?thesis by (simp add: flagged_names_Cons)
  next
    case False
    from Cons.IH[OF collect_loop_step_unflagged[OF False Cons.prems]] False
    show ?thesis by (simp add: flagged_names_Cons)
  qed
qed

text \<open>
  C1 (amended). When the contamination pass returns, its contamination set holds exactly
  the names of the Ranked-Candidate leaves whose organism code is a key of the
  Contamination Directory and for which the consensus test, started at the leaf's
  parent, returns true.
\<close>

theorem collect_contaminations_iff:
  assumes "collect_contaminations md cd t = Inr (contaminations, cont_table_name)"
  shows "contaminations =
           {name node | node ups. (node, ups) \<in> set (traverse [] t)
              \<and> is_leaf node \<and> count_char CHR ''_'' (name node) = 4
              \<and> (\<exists>ckr. cd (hd (py_split ''_'' (name node))) = Some ckr
                     \<and> expected_neighborhood md ups ckr = Inr True)}"
proof -
  have "contaminations = flagged_names md cd (traverse [] t)"
    using collect_loop_fst[OF assms[unfolded collect_contaminations_def]] by simp
  also have "\<dots> = {name node | node ups. (node, ups) \<in> set (traverse [] t)
              \<and> is_leaf node \<and> count_char CHR ''_'' (name node) = 4
              \<and> (\<exists>ckr. cd (hd (py_split ''_'' (name node))) = Some ckr
                     \<and> expected_neighborhood md ups ckr = Inr True)}"
    unfolding flagged_names_def flagged_def by force
  finally show ?thesis .
qed

lemma collect_loop_no_cont_keyerror:
  "collect_loop md cd xs acc \<noteq> Inl (KeyError ContDict k)"
proof (induction xs arbitrary: acc)
  case Nil
  then show ?case by simp
next
  case (Cons x xs)
  have en: "expected_neighborhood md ups ckr \<noteq> Inl (KeyError ContDict k)" for ups ckr
  proof (induction ups)
    case Nil
    then show ?case by (cases ckr) auto
  next
    case (Cons p ups)
    have "collect_keywords md rank kws ls \<noteq> Inl (KeyError ContDict k)" for rank kws ls
      by (induction ls arbitrary: kws) (auto simp: Let_def split: option.splits)
    then show ?case using Cons by (cases ckr) (auto split: sum.splits)
  qed
  show ?case using Cons en
    by (auto simp: Let_def check_contamination_def split: option.splits sum.splits)
qed

theorem collect_contaminations_iff_witness:
  "collect_contaminations example_metadata beta_directory example_tree
     = Inr ({''X_hit_0_r1q_0''}, {''Xus xus_0_r1q_0@X''})
   \<and> {''X_hit_0_r1q_0''} =
       {name node | node ups. (node, ups) \<in> set (traverse [] example_tree)
          \<and> is_leaf node \<and> count_char CHR ''_'' (name node) = 4
          \<and> (\<exists>ckr. beta_directory (hd (py_split ''_'' (name node))) = Some ckr
                 \<and> expected_neighborhood example_metadata ups ckr = Inr True)}"
proof -
  have e: "collect_contaminations example_metadata beta_directory example_tree
             = Inr ({''X_hit_0_r1q_0''}, {''Xus xus_0_r1q_0@X''})"
    by (simp add: collect_contaminations_def example_tree_def beta_clade_def
        example_metadata_def beta_directory_def is_leaf_def count_char_def py_split_def
        check_contamination_def organism_def)
  from collect_contaminations_iff[OF e] e show ?thesis by simp
qed

text \<open>
  C1 as stated fails: with \<open>X\<close> in the directory under the expected keyword \<open>Alpha\<close>,
  the candidate of \<open>X\<close> sits among Beta leaves, the consensus test from its parent
  returns false, and the pass does not add the leaf to the contamination set.
\<close>

theorem collect_contaminations_polarity_counterexample:
  "alpha_directory ''X'' = Some (''Alpha'', ''group'')
   \<and> expected_neighborhood example_metadata [beta_clade, example_tree] (''Alpha'', ''group'')
       = Inr False
   \<and> collect_contaminations example_metadata alpha_directory example_tree = Inr ({}, {})"
  by (simp add: collect_contaminations_def example_tree_def beta_clade_def
      example_metadata_def alpha_directory_def is_leaf_def count_char_def py_split_def
      check_contamination_def organism_def)

text \<open>
  C2. On a tree whose leaves are all Ranked Candidates no ancestor gives a keyword: the
  test climbs past the root, where \<open>parent\<close> is \<open>None\<close>, and the call
  \<open>parent.get_leaf_names()\<close> raises instead of returning false.
\<close>

theorem expected_neighborhood_past_root:
  "expected_neighborhood example_metadata
       [Node [] 100 [Node ''X_hit_0_r1q_0'' 1 [], Node ''A_hit_0_r1q_0'' 1 []],
        candidates_only_tree] (''Alpha'', ''group'') = Inl AttributeError
   \<and> collect_contaminations example_metadata alpha_directory candidates_only_tree
       = Inl AttributeError"
  by (simp add: collect_contaminations_def candidates_only_tree_def
      example_metadata_def alpha_directory_def is_leaf_def count_char_def py_split_def
      check_contamination_def organism_def)

lemma leaf_names_traverse:
  "map (\<lambda>x. name (fst x)) (filter (\<lambda>x. is_leaf (fst x)) (traverse ups t)) = get_leaf_names t"
proof (induction t arbitrary: ups)
  case (Node n s cs)
  show ?case
  proof (cases "cs = []")
    case True
    then show ?thesis by (simp add: is_leaf_def)
  next
    case False
    have "map (\<lambda>c. map (\<lambda>x. name (fst x)) (filter (\<lambda>x. is_leaf (fst x)) (traverse (Node n s cs # ups) c))) cs
            = map get_leaf_names cs"
      using Node.IH by (intro map_cong) auto
    then have "concat (map (\<lambda>c. map (\<lambda>x. name (fst x)) (filter (\<lambda>x. is_leaf (fst x)) (traverse (Node n s cs # ups) c))) cs)
            = concat (map get_leaf_names cs)"
      by (rule arg_cong[where f = concat])
    then show ?thesis using False
      by (simp add: is_leaf_def map_concat filter_concat comp_def)
  qed
qed

lemma flagged_names_leaves: "flagged_names md cd (traverse ups t) \<subseteq> set (get_leaf_names t)"
proof -
  have "flagged_names md cd (traverse ups t)
          \<subseteq> set (map (\<lambda>x. name (fst x)) (filter (\<lambda>x. is_leaf (fst x)) (traverse ups t)))"
    by (auto simp: flagged_names_def flagged_def)
  then show ?thesis by (simp only: leaf_names_traverse)
qed

text \<open>
  C10. The contamination pass never fails on the lookup in the Contamination Directory,
  and every identifier of the contamination set it returns is the name of a leaf of the
  tree that has exactly four underscores and whose organism code is a key of the
  directory.
\<close>

theorem collect_contaminations_members:
  "(\<forall>key. collect_contaminations md cd t \<noteq> Inl (KeyError ContDict key))
   \<and> (\<forall>contaminations cont_table_name.
         collect_contaminations md cd t = Inr (contaminations, cont_table_name)
         \<longrightarrow> (\<forall>nm \<in> contaminations. nm \<in> set (get_leaf_names t)
                \<and> count_char CHR ''_'' nm = 4
                \<and> hd (py_split ''_'' nm) \<in> dom cd))"
proof -
  have a: "collect_contaminations md cd t \<noteq> Inl (KeyError ContDict key)" for key
    by (simp add: collect_contaminations_def collect_loop_no_cont_keyerror)
  have b: "nm \<in> set (get_leaf_names t) \<and> count_char CHR ''_'' nm = 4
             \<and> hd (py_split ''_'' nm) \<in> dom cd"
    if r: "collect_contaminations md cd t = Inr (contaminations, cont_table_name)"
      and m: "nm \<in> contaminations" for contaminations cont_table_name nm
  proof -
    have "contaminations = flagged_names md cd (traverse [] t)"
      using collect_loop_fst[OF r[unfolded collect_contaminations_def]] by simp
    with m have f: "nm \<in> flagged_names md cd (traverse [] t)" by simp
    then have "nm \<in> set (get_leaf_names t)" using flagged_names_leaves by blast
    moreover from f obtain x where "flagged md cd x" "nm = name (fst x)"
      by (auto simp: flagged_names_def)
    then have "count_char CHR ''_'' nm = 4 \<and> hd (py_split ''_'' nm) \<in> dom cd"
      by (auto simp: flagged_def)
    ultimately show ?thesis by simp
  qed
  show ?thesis using a b by blast
qed

theorem collect_contaminations_members_witness:
  "collect_contaminations example_metadata beta_directory example_tree
     = Inr ({''X_hit_0_r1q_0''}, {''Xus xus_0_r1q_0@X''})
   \<and> ''X_hit_0_r1q_0'' \<in> set (get_leaf_names example_tree)
   \<and> count_char CHR ''_'' ''X_hit_0_r1q_0'' = 4
   \<and> hd (py_split ''_'' ''X_hit_0_r1q_0'') \<in> dom beta_directory"
proof -
  have e: "collect_contaminations example_metadata beta_directory example_tree
             = Inr ({''X_hit_0_r1q_0''}, {''Xus xus_0_r1q_0@X''})"
    by (simp add: collect_contaminations_def example_tree_def beta_clade_def
        example_metadata_def beta_directory_def is_leaf_def count_char_def py_split_def
        check_contamination_def organism_def)
  from collect_contaminations_members[of example_metadata beta_directory example_tree] e
  have "\<forall>nm \<in> {''X_hit_0_r1q_0''}. nm \<in> set (get_leaf_names example_tree)
         \<and> count_char CHR ''_'' nm = 4 \<and> hd (py_split ''_'' nm) \<in> dom beta_directory"
    by blast
  then have "''X_hit_0_r1q_0'' \<in> set (get_leaf_names example_tree)
         \<and> count_char CHR ''_'' ''X_hit_0_r1q_0'' = 4
         \<and> hd (py_split ''_'' ''X_hit_0_r1q_0'') \<in> dom beta_directory"
    by (rule bspec) simp
  with e show ?thesis by (intro conjI) simp_all
qed

section \<open>The suspicious-clade detector\<close>

lemma traverse_nodes: "map fst (traverse ups t) = subtrees t"
proof (induction t arbitrary: ups)
  case (Node n s cs)
  have "map (\<lambda>c. map fst (traverse (Node n s cs # ups) c)) cs = map subtrees cs"
    using Node.IH by (intro map_cong) auto
  then have "concat (map (\<lambda>c. map fst (traverse (Node n s cs # ups) c)) cs)
               = concat (map subtrees cs)"
    by (rule arg_cong[where f = concat])
  then show ?case by (simp add: map_concat comp_def)
qed









section \<open>The candidate selector\<close>










lemma leaf_names_subtrees: "get_leaf_names t = map name (filter is_leaf (subtrees t))"
proof -
  have "get_leaf_names t
          = map (\<lambda>x. name (fst x)) (filter (\<lambda>x. is_leaf (fst x)) (traverse [] t))"
    by (simp only: leaf_names_traverse)
  also have "\<dots> = map name (filter is_leaf (map fst (traverse [] t)))"
    by (simp add: filter_map comp_def)
  finally show ?thesis by (simp only: traverse_nodes)
qed





text \<open>
  A rank field with a separator character that \<open>str.strip()\<close> would remove, but
  \<open>int\<close> does not skip, makes the selector raise \<open>ValueError\<close>.
\<close>

lemma split_separator_candidate:
  "py_split ''_'' (''X_hit_0_r'' @ [CHR 0x1C] @ ''1q_b'')
     = [''X'', ''hit'', ''0'', ''r'' @ [CHR 0x1C] @ ''1q'', ''b'']"
  by (simp add: py_split_def)

lemma get_best_candidates_separator_rank:
  "get_best_candidates
     (Node [] 1 [Node (''X_hit_0_r'' @ [CHR 0x1C] @ ''1q_b'') 1 [], Node ''A_100'' 1 []])
     = Inl ValueError"
proof -
  have r: "py_int (butlast (tl (''r'' @ [CHR 0x1C] @ ''1q''))) = None"
    by (simp add: py_int_def int_strip_def is_int_space_def parse_decimal_def is_digit_def)
  have c: "count_char CHR ''_'' (''X_hit_0_r'' @ [CHR 0x1C] @ ''1q_b'') = 4"
    by (simp add: count_char_def)
  show ?thesis
    using r c split_separator_candidate
    by (simp add: get_best_candidates_def is_leaf_def)
qed

text \<open>The selector returns whenever every candidate's rank field is an integer.\<close>

lemma best_loop_total:
  assumes "\<forall>node \<in> set nodes. is_leaf node \<and> count_char CHR ''_'' (name node) = 4
             \<longrightarrow> candidate_rank (name node) \<noteq> None"
  shows "\<exists>d'. best_loop nodes d = Inr d'"
  using assms
proof (induction nodes arbitrary: d)
  case Nil
  then show ?case by simp
next
  case (Cons node rest)
  then have rest: "\<And>d. \<exists>d'. best_loop rest d = Inr d'" by simp
  show ?case
  proof (cases "is_leaf node \<and> count_char CHR ''_'' (name node) = 4")
    case False
    then show ?thesis using rest[of d] by auto
  next
    case True
    then obtain org f1 f2 rank f4 where sp: "py_split ''_'' (name node) = [org, f1, f2, rank, f4]"
      using candidate_fields by blast
    from True Cons.prems obtain r where "candidate_rank (name node) = Some r" by auto
    then have pr: "py_int (butlast (tl rank)) = Some r" by (simp add: candidate_rank_def sp)
    show ?thesis
    proof (cases "map_of d org")
      case None
      then show ?thesis using True sp pr rest[of "AList.update org (r, name node) d"] by simp
    next
      case (Some best)
      then show ?thesis
        using True sp pr rest[of "AList.update org (r, name node) d"] rest[of d] by simp
    qed
  qed
qed

lemma get_best_candidates_total:
  assumes "\<forall>nm \<in> set (candidate_names t). candidate_rank nm \<noteq> None"
  shows "\<exists>top_seqs. get_best_candidates t = Inr top_seqs"
proof -
  have "\<forall>node \<in> set (map fst (traverse [] t)). is_leaf node \<and> count_char CHR ''_'' (name node) = 4
             \<longrightarrow> candidate_rank (name node) \<noteq> None"
    using assms by (auto simp: candidate_names_def leaf_names_subtrees traverse_nodes)
  from best_loop_total[OF this, of "[]"] show ?thesis
    by (auto simp: get_best_candidates_def)
qed

section \<open>The redundancy reduction\<close>

lemma filter_Cons_if: "filter P (x # xs) = (if P x then [x] else []) @ filter P xs"
  by simp

lemma map_nth_Cons_shift:
  "map (\<lambda>i. (s # ss) ! i) ((if b then [0] else []) @ map Suc ys)
     = (if b then [s] else []) @ map (\<lambda>i. ss ! i) ys"
  by simp

lemma reduce_sets_Cons_if:
  "reduce_sets (s # ss)
     = (if \<not> list_ex (\<lambda>other. s \<subseteq> other) ss then [s] else []) @ reduce_sets ss"
  by simp

lemma reduce_sets_nth:
  "reduce_sets ss =
     map (\<lambda>i. ss ! i)
       (filter (\<lambda>i. \<not> (\<exists>j. i < j \<and> j < length ss \<and> ss ! i \<subseteq> ss ! j)) [0..<length ss])"
proof (induction ss)
  case Nil
  then show ?case by simp
next
  case (Cons s ss)
  let ?P = "\<lambda>i. \<not> (\<exists>j. i < j \<and> j < length (s # ss) \<and> (s # ss) ! i \<subseteq> (s # ss) ! j)"
  let ?Q = "\<lambda>i. \<not> (\<exists>j. i < j \<and> j < length ss \<and> ss ! i \<subseteq> ss ! j)"
  have upt: "[0..<length (s # ss)] = 0 # map Suc [0..<length ss]"
    by (simp add: upt_conv_Cons map_Suc_upt del: upt_Suc)
  have head: "?P 0 \<longleftrightarrow> \<not> list_ex (\<lambda>other. s \<subseteq> other) ss"
  proof -
    have "(\<exists>j. 0 < j \<and> j < length (s # ss) \<and> s \<subseteq> (s # ss) ! j)
            \<longleftrightarrow> (\<exists>k. k < length ss \<and> s \<subseteq> ss ! k)"
    proof
      assume "\<exists>j. 0 < j \<and> j < length (s # ss) \<and> s \<subseteq> (s # ss) ! j"
      then obtain j where "0 < j" "j < length (s # ss)" "s \<subseteq> (s # ss) ! j" by blast
      then have "j - 1 < length ss \<and> s \<subseteq> ss ! (j - 1)" by (cases j) auto
      then show "\<exists>k. k < length ss \<and> s \<subseteq> ss ! k" by blast
    next
      assume "\<exists>k. k < length ss \<and> s \<subseteq> ss ! k"
      then obtain k where "k < length ss" "s \<subseteq> ss ! k" by blast
      then have "0 < Suc k \<and> Suc k < length (s # ss) \<and> s \<subseteq> (s # ss) ! Suc k" by simp
      then show "\<exists>j. 0 < j \<and> j < length (s # ss) \<and> s \<subseteq> (s # ss) ! j" by blast
    qed
    moreover have "list_ex (\<lambda>other. s \<subseteq> other) ss \<longleftrightarrow> (\<exists>k. k < length ss \<and> s \<subseteq> ss ! k)"
      unfolding list_ex_iff by (metis in_set_conv_nth)
    moreover have "?P 0 \<longleftrightarrow> \<not> (\<exists>j. 0 < j \<and> j < length (s # ss) \<and> s \<subseteq> (s # ss) ! j)"
      by (simp only: nth_Cons_0)
    ultimately show ?thesis by blast
  qed
  have tail: "?P (Suc i) \<longleftrightarrow> ?Q i" for i
  proof -
    have "(\<exists>j. Suc i < j \<and> j < length (s # ss) \<and> (s # ss) ! Suc i \<subseteq> (s # ss) ! j)
            \<longleftrightarrow> (\<exists>k. i < k \<and> k < length ss \<and> ss ! i \<subseteq> ss ! k)"
    proof
      assume "\<exists>j. Suc i < j \<and> j < length (s # ss) \<and> (s # ss) ! Suc i \<subseteq> (s # ss) ! j"
      then obtain j where "Suc i < j" "j < length (s # ss)" "(s # ss) ! Suc i \<subseteq> (s # ss) ! j"
        by blast
      then have "i < j - 1 \<and> j - 1 < length ss \<and> ss ! i \<subseteq> ss ! (j - 1)" by (cases j) auto
      then show "\<exists>k. i < k \<and> k < length ss \<and> ss ! i \<subseteq> ss ! k" by blast
    next
      assume "\<exists>k. i < k \<and> k < length ss \<and> ss ! i \<subseteq> ss ! k"
      then obtain k where "i < k" "k < length ss" "ss ! i \<subseteq> ss ! k" by blast
      then have "Suc i < Suc k \<and> Suc k < length (s # ss) \<and> (s # ss) ! Suc i \<subseteq> (s # ss) ! Suc k"
        by simp
      then show "\<exists>j. Suc i < j \<and> j < length (s # ss) \<and> (s # ss) ! Suc i \<subseteq> (s # ss) ! j"
        by blast
    qed
    then show ?thesis by simp
  qed
  have pq: "(\<lambda>i. ?P (Suc i)) = ?Q" by (rule ext) (rule tail)
  have "filter ?P (map Suc [0..<length ss]) = map Suc (filter (\<lambda>i. ?P (Suc i)) [0..<length ss])"
    by (simp only: filter_map comp_def)
  also have "\<dots> = map Suc (filter ?Q [0..<length ss])" by (simp only: pq)
  finally have shift: "filter ?P (map Suc [0..<length ss]) = map Suc (filter ?Q [0..<length ss])" .
  have "filter ?P [0..<length (s # ss)] = filter ?P (0 # map Suc [0..<length ss])"
    by (simp only: upt)
  also have "\<dots> = (if ?P 0 then [0] else []) @ filter ?P (map Suc [0..<length ss])"
    by (rule filter_Cons_if)
  finally have F: "filter ?P [0..<length (s # ss)]
                     = (if ?P 0 then [0] else []) @ map Suc (filter ?Q [0..<length ss])"
    by (simp only: shift)
  have "map (\<lambda>i. (s # ss) ! i) (filter ?P [0..<length (s # ss)])
          = map (\<lambda>i. (s # ss) ! i)
              ((if ?P 0 then [0] else []) @ map Suc (filter ?Q [0..<length ss]))"
    by (simp only: F)
  also have "\<dots> = (if ?P 0 then [s] else []) @ map (\<lambda>i. ss ! i) (filter ?Q [0..<length ss])"
    by (rule map_nth_Cons_shift)
  also have "\<dots> = (if \<not> list_ex (\<lambda>other. s \<subseteq> other) ss then [s] else []) @ reduce_sets ss"
    by (simp only: head Cons.IH[symmetric])
  also have "\<dots> = reduce_sets (s # ss)" by (rule reduce_sets_Cons_if[symmetric])
  finally show ?case by (rule sym)
qed

lemma nonredundant_concat:
  "nonredundant rcs = concat (map (\<lambda>clades. reduce_sets (map set (sort_key length clades))) rcs)"
  by (induction rcs) auto

text \<open>
  C5 (amended). The reduction works tree by tree: the result is the concatenation, over
  the trees, of the clades kept from that tree's list sorted by length (ascending, a
  permutation of the list); the clade at position \<open>i\<close> of the sorted list is dropped
  exactly when it is a subset of a clade at a later position \<open>j\<close> of the same sorted
  list, which is at least as long but need not be longer.
\<close>

theorem nonredundant_later_subset:
  "nonredundant result_clades =
     concat (map (\<lambda>clades.
        map (\<lambda>i. set (sort_key length clades ! i))
          (filter (\<lambda>i. \<not> (\<exists>j. i < j \<and> j < length clades
                           \<and> set (sort_key length clades ! i) \<subseteq> set (sort_key length clades ! j)))
             [0..<length clades])) result_clades)
   \<and> (\<forall>clades \<in> set result_clades.
         mset (sort_key length clades) = mset clades
         \<and> (\<forall>i j. i < j \<and> j < length clades
               \<longrightarrow> length (sort_key length clades ! i) \<le> length (sort_key length clades ! j)))"
proof -
  have per: "reduce_sets (map set (sort_key length clades)) =
        map (\<lambda>i. set (sort_key length clades ! i))
          (filter (\<lambda>i. \<not> (\<exists>j. i < j \<and> j < length clades
                           \<and> set (sort_key length clades ! i) \<subseteq> set (sort_key length clades ! j)))
             [0..<length clades])" for clades :: "string list list"
  proof -
    let ?s = "sort_key length clades"
    have len: "length ?s = length clades" by simp
    have "reduce_sets (map set ?s) =
        map (\<lambda>i. map set ?s ! i)
          (filter (\<lambda>i. \<not> (\<exists>j. i < j \<and> j < length (map set ?s)
                           \<and> map set ?s ! i \<subseteq> map set ?s ! j)) [0..<length (map set ?s)])"
      by (rule reduce_sets_nth)
    also have "\<dots> = map (\<lambda>i. set (?s ! i))
          (filter (\<lambda>i. \<not> (\<exists>j. i < j \<and> j < length clades \<and> set (?s ! i) \<subseteq> set (?s ! j)))
             [0..<length clades])"
    proof -
      have f: "filter (\<lambda>i. \<not> (\<exists>j. i < j \<and> j < length (map set ?s)
                           \<and> map set ?s ! i \<subseteq> map set ?s ! j)) [0..<length (map set ?s)]
            = filter (\<lambda>i. \<not> (\<exists>j. i < j \<and> j < length clades \<and> set (?s ! i) \<subseteq> set (?s ! j)))
                [0..<length clades]"
        by (rule filter_cong) (auto simp: len)
      show ?thesis unfolding f by (rule map_cong) (auto simp: len)
    qed
    finally show ?thesis .
  qed
  have a: "nonredundant result_clades =
     concat (map (\<lambda>clades.
        map (\<lambda>i. set (sort_key length clades ! i))
          (filter (\<lambda>i. \<not> (\<exists>j. i < j \<and> j < length clades
                           \<and> set (sort_key length clades ! i) \<subseteq> set (sort_key length clades ! j)))
             [0..<length clades])) result_clades)"
    by (simp only: nonredundant_concat per)
  have b: "length (sort_key length clades ! i) \<le> length (sort_key length clades ! j)"
    if "i < j" "j < length clades" for clades :: "string list list" and i j
  proof -
    have "sorted (map length (sort_key length clades))" by (rule sorted_sort_key)
    then have "map length (sort_key length clades) ! i \<le> map length (sort_key length clades) ! j"
      using that by (intro sorted_nth_mono) auto
    then show ?thesis using that by simp
  qed
  have c: "\<forall>clades \<in> set result_clades.
         mset (sort_key length clades) = mset clades
         \<and> (\<forall>i j. i < j \<and> j < length clades
               \<longrightarrow> length (sort_key length clades ! i) \<le> length (sort_key length clades ! j))"
    using b by auto
  show ?thesis using a c by (rule conjI)
qed

theorem nonredundant_later_subset_witness:
  "nonredundant [[[''A_1'', ''C_1'', ''B_1''], [''A_1'', ''C_1''], [''B_1'', ''D_1'']]]
     = [{''B_1'', ''D_1''}, {''A_1'', ''C_1'', ''B_1''}]
   \<and> length (sort_key length [[''A_1'', ''C_1'', ''B_1''], [''A_1'', ''C_1''], [''B_1'', ''D_1'']] ! 0)
       \<le> length (sort_key length [[''A_1'', ''C_1'', ''B_1''], [''A_1'', ''C_1''], [''B_1'', ''D_1'']] ! 2)"
proof -
  let ?cl = "[[''A_1'', ''C_1'', ''B_1''], [''A_1'', ''C_1''], [''B_1'', ''D_1'']]"
  have e: "nonredundant [?cl] = [{''B_1'', ''D_1''}, {''A_1'', ''C_1'', ''B_1''}]"
    by simp
  have m: "?cl \<in> set [?cl]" by simp
  have ij: "(0::nat) < 2 \<and> 2 < length ?cl" by simp
  note ord = nonredundant_later_subset[of "[?cl]", THEN conjunct2, THEN bspec, OF m,
      THEN conjunct2, THEN spec, THEN spec, THEN mp, OF ij]
  show ?thesis by (intro conjI e ord)
qed

text \<open>
  C5 as stated fails: of two identical clades in one tree's list the first is dropped,
  although no clade of the list is larger.
\<close>

theorem nonredundant_larger_counterexample:
  "nonredundant [[[''A_1'', ''C_1''], [''A_1'', ''C_1'']]] = [{''A_1'', ''C_1''}]
   \<and> nonredundant_larger [[[''A_1'', ''C_1''], [''A_1'', ''C_1'']]]
       = [{''A_1'', ''C_1''}, {''A_1'', ''C_1''}]"
  by (simp add: nonredundant_larger_def)

lemma reduce_sets_subset: "set (reduce_sets ss) \<subseteq> set ss"
  by (induction ss) auto

lemma reduce_sets_idem: "reduce_sets (reduce_sets ss) = reduce_sets ss"
proof (induction ss)
  case Nil
  then show ?case by simp
next
  case (Cons s ss)
  show ?case
  proof (cases "list_ex (\<lambda>other. s \<subseteq> other) ss")
    case True
    then show ?thesis using Cons.IH by simp
  next
    case False
    then have "\<not> list_ex (\<lambda>other. s \<subseteq> other) (reduce_sets ss)"
      using reduce_sets_subset[of ss] by (auto simp: list_ex_iff)
    then show ?thesis using False Cons.IH by simp
  qed
qed

lemma sorted_reduce_sets: "sorted (map f ss) \<Longrightarrow> sorted (map f (reduce_sets ss))"
proof (induction ss)
  case Nil
  then show ?case by simp
next
  case (Cons s ss)
  then show ?case using reduce_sets_subset[of ss] by auto
qed

lemma enumerated_sets:
  "list_all2 (\<lambda>ys S. distinct ys \<and> set ys = S) yss R \<Longrightarrow>
     map set yss = R \<and> map length yss = map card R"
  by (induction rule: list_all2_induct) (auto simp: distinct_card)

lemma nonredundant_single:
  "nonredundant [clades] = reduce_sets (map set (sort_key length clades))"
  by simp

lemma reduce_again:
  assumes d: "\<forall>clade \<in> set clades. distinct clade"
    and en: "list_all2 (\<lambda>ys S. distinct ys \<and> set ys = S) reduced (nonredundant [clades])"
  shows "nonredundant [reduced] = nonredundant [clades]"
proof -
  let ?sorted = "sort_key length clades"
  let ?R = "reduce_sets (map set ?sorted)"
  from en have ms: "map set reduced = ?R" and ml: "map length reduced = map card ?R"
    using enumerated_sets[of reduced ?R] by (simp_all only: nonredundant_single)
  have cl: "map card (map set ?sorted) = map length ?sorted"
    using d by (auto simp: distinct_card)
  have "sorted (map length ?sorted)" by (rule sorted_sort_key)
  then have "sorted (map card (map set ?sorted))" by (simp only: cl)
  then have "sorted (map card ?R)" by (rule sorted_reduce_sets)
  then have "sorted (map length reduced)" by (simp only: ml)
  then have "sort_key length reduced = reduced" by (rule sort_key_id_if_sorted)
  then have "nonredundant [reduced] = reduce_sets (map set reduced)"
    by (simp only: nonredundant_single)
  also have "\<dots> = ?R" by (simp only: ms reduce_sets_idem)
  finally show ?thesis by (simp only: nonredundant_single)
qed

lemma nonredundant_per_tree:
  "nonredundant rcs = concat (map (\<lambda>clades. nonredundant [clades]) rcs)"
  by (induction rcs) auto

text \<open>
  C6 (amended). The reduction is idempotent tree by tree: for per-tree lists of clades
  without repeated leaf names, when each tree's reduced clades (each set listed once, in
  any order of its members) are reduced again, the result is the result of the first
  reduction.
\<close>

theorem nonredundant_idempotent_per_tree:
  assumes "\<forall>clades \<in> set result_clades. \<forall>clade \<in> set clades. distinct clade"
    and "list_all2
           (\<lambda>reduced clades.
              list_all2 (\<lambda>ys S. distinct ys \<and> set ys = S) reduced (nonredundant [clades]))
           again result_clades"
  shows "nonredundant again = nonredundant result_clades"
proof -
  have "map (\<lambda>reduced. nonredundant [reduced]) again
          = map (\<lambda>clades. nonredundant [clades]) result_clades"
    using assms(2) assms(1)
  proof (induction rule: list_all2_induct)
    case Nil
    then show ?case by simp
  next
    case (Cons reduced again clades result_clades)
    have "nonredundant [reduced] = nonredundant [clades]"
      using Cons.hyps(1) Cons.prems by (intro reduce_again) auto
    then show ?case using Cons by simp
  qed
  then have "concat (map (\<lambda>reduced. nonredundant [reduced]) again)
          = concat (map (\<lambda>clades. nonredundant [clades]) result_clades)"
    by (rule arg_cong)
  then show ?thesis by (simp only: nonredundant_per_tree[symmetric])
qed

theorem nonredundant_idempotent_per_tree_witness:
  "nonredundant [[[''C_1'', ''B_1'', ''A_1'']], [[''B_1'', ''A_1'']]]
     = nonredundant [[[''A_1'', ''B_1''], [''A_1'', ''B_1'', ''C_1'']], [[''A_1'', ''B_1'']]]"
proof -
  let ?rc = "[[[''A_1'', ''B_1''], [''A_1'', ''B_1'', ''C_1'']], [[''A_1'', ''B_1'']]]"
  let ?again = "[[[''C_1'', ''B_1'', ''A_1'']], [[''B_1'', ''A_1'']]]"
  have d: "\<forall>clades \<in> set ?rc. \<forall>clade \<in> set clades. distinct clade" by simp
  have en: "list_all2
           (\<lambda>reduced clades.
              list_all2 (\<lambda>ys S. distinct ys \<and> set ys = S) reduced (nonredundant [clades]))
           ?again ?rc"
    by (simp add: insert_commute)
  show ?thesis by (rule nonredundant_idempotent_per_tree[OF d en])
qed

text \<open>
  C6 as stated fails. The output of two trees, fed back as one list, loses the clade of
  the first tree that is nested in the clade of the second; and a clade with a repeated
  leaf name changes place in the second sort and is then dropped.
\<close>

theorem nonredundant_idempotent_counterexample:
  "nonredundant [[[''A_1'', ''B_1'']], [[''A_1'', ''B_1'', ''C_1'']]]
     = [{''A_1'', ''B_1''}, {''A_1'', ''B_1'', ''C_1''}]
   \<and> nonredundant [[[''A_1'', ''B_1''], [''A_1'', ''B_1'', ''C_1'']]]
       = [{''A_1'', ''B_1'', ''C_1''}]
   \<and> {''A_1'', ''B_1''} \<noteq> {''A_1'', ''B_1'', ''C_1''}
   \<and> nonredundant [[[''A_1'', ''A_1'', ''A_1'', ''C_1''], [''A_1'', ''C_1'', ''D_1'']]]
       = [{''A_1'', ''C_1'', ''D_1''}, {''A_1'', ''C_1''}]
   \<and> nonredundant [[[''A_1'', ''C_1'', ''D_1''], [''A_1'', ''C_1'']]]
       = [{''A_1'', ''C_1'', ''D_1''}]
   \<and> {''A_1'', ''C_1''} \<noteq> {''A_1'', ''C_1'', ''D_1''}"
proof -
  have n1: "{''A_1'', ''B_1''} \<noteq> {''A_1'', ''B_1'', ''C_1''}"
  proof
    assume "{''A_1'', ''B_1''} = {''A_1'', ''B_1'', ''C_1''}"
    then have "''C_1'' \<in> {''A_1'', ''B_1''}" by (rule ssubst) simp
    then show False by simp
  qed
  have n2: "{''A_1'', ''C_1''} \<noteq> {''A_1'', ''C_1'', ''D_1''}"
  proof
    assume "{''A_1'', ''C_1''} = {''A_1'', ''C_1'', ''D_1''}"
    then have "''D_1'' \<in> {''A_1'', ''C_1''}" by (rule ssubst) simp
    then show False by simp
  qed
  show ?thesis using n1 n2 by simp
qed


section \<open>The problematic-organism table\<close>

lemma clade_taxons_known:
  "\<forall>leaf \<in> set clade. md (organism leaf) \<noteq> None \<Longrightarrow>
     clade_taxons md clade = Inr (map (member_group md) clade)"
  by (induction clade) (auto simp: member_group_def Let_def)

lemma max_loop_max:
  "\<exists>kv \<in> set (best # rest). max_loop best rest = fst kv
      \<and> (\<forall>kv' \<in> set (best # rest). snd kv' \<le> snd kv)"
proof (induction rest arbitrary: best)
  case Nil
  then show ?case by simp
next
  case (Cons kv rest)
  let ?b = "if snd kv > snd best then kv else best"
  from Cons.IH[of ?b] obtain m where m: "m \<in> set (?b # rest)"
    "max_loop ?b rest = fst m" "\<forall>kv' \<in> set (?b # rest). snd kv' \<le> snd m" by blast
  have "m \<in> set (best # kv # rest)" using m(1) by (auto split: if_splits)
  moreover have "max_loop best (kv # rest) = fst m" using m(2) by simp
  moreover have "\<forall>kv' \<in> set (best # kv # rest). snd kv' \<le> snd m"
  proof
    fix kv' assume "kv' \<in> set (best # kv # rest)"
    then consider "kv' = best" | "kv' = kv" | "kv' \<in> set rest" by auto
    then show "snd kv' \<le> snd m"
    proof cases
      case 1
      have "snd best \<le> snd ?b" by simp
      moreover have "snd ?b \<le> snd m" using m(3) by simp
      ultimately show ?thesis using 1 by simp
    next
      case 2
      have "snd kv \<le> snd ?b" by simp
      moreover have "snd ?b \<le> snd m" using m(3) by simp
      ultimately show ?thesis using 2 by simp
    next
      case 3
      then show ?thesis using m(3) by simp
    qed
  qed
  ultimately show ?case by blast
qed

lemma map_of_group_perc:
  "map_of (map (\<lambda>k. (k, f k)) ks) k = (if k \<in> set ks then Some (f k) else None)"
  by (induction ks) auto

lemma group_perc_share:
  "group_perc order (map (member_group md) clade) = map (\<lambda>tax. (tax, share md clade tax)) order"
  by (simp add: group_perc_def share_def)

lemma dominant_max:
  assumes "set (set_iter (map (member_group md) clade)) = set (map (member_group md) clade)"
    and "clade \<noteq> []"
  shows "(\<exists>leaf \<in> set clade. dominant set_iter md clade = member_group md leaf)
       \<and> (\<forall>leaf \<in> set clade.
            share md clade (member_group md leaf) \<le> share md clade (dominant set_iter md clade))"
proof -
  let ?taxons = "map (member_group md) clade"
  let ?order = "set_iter ?taxons"
  let ?gp = "map (\<lambda>tax. (tax, share md clade tax)) ?order"
  have ne: "?gp \<noteq> []" using assms by auto
  then have split: "?gp = hd ?gp # tl ?gp" by simp
  have dom: "dominant set_iter md clade = max_loop (hd ?gp) (tl ?gp)"
    by (simp only: dominant_def Let_def group_perc_share)
  from max_loop_max[of "hd ?gp" "tl ?gp"] split
  obtain kv where kv: "kv \<in> set ?gp" "max_loop (hd ?gp) (tl ?gp) = fst kv"
    "\<forall>kv' \<in> set ?gp. snd kv' \<le> snd kv" by metis
  from kv(1) obtain tax where tax: "tax \<in> set ?order" "kv = (tax, share md clade tax)"
    by auto
  have d: "dominant set_iter md clade = tax" using dom kv(2) tax(2) by simp
  have "tax \<in> set ?taxons" using tax(1) assms(1) by simp
  then have a: "\<exists>leaf \<in> set clade. dominant set_iter md clade = member_group md leaf"
    using d by auto
  have b: "share md clade (member_group md leaf) \<le> share md clade (dominant set_iter md clade)"
    if "leaf \<in> set clade" for leaf
  proof -
    have "member_group md leaf \<in> set ?order" using that assms(1) by simp
    then have "(member_group md leaf, share md clade (member_group md leaf)) \<in> set ?gp"
      by auto
    with kv(3) tax(2) d show ?thesis by fastforce
  qed
  show ?thesis using a b by blast
qed

lemma py_max_key_dominant:
  assumes "set (set_iter (map (member_group md) clade)) = set (map (member_group md) clade)"
    and "clade \<noteq> []"
  shows "py_max_key (group_perc (set_iter (map (member_group md) clade)) (map (member_group md) clade))
           = Inr (dominant set_iter md clade)"
proof -
  let ?gp = "group_perc (set_iter (map (member_group md) clade)) (map (member_group md) clade)"
  have "?gp \<noteq> []" using assms by (auto simp: group_perc_def)
  then obtain kv rest where "?gp = kv # rest" by (cases ?gp) auto
  then show ?thesis by (simp add: py_max_key_def dominant_def Let_def)
qed

lemma entry_append_entry:
  "entry (append_entry tbl org x) org' = (if org' = org then entry tbl org @ [x] else entry tbl org')"
  by (simp add: entry_def append_entry_def)

lemma label_loop_entries:
  assumes "set order = set (map (member_group md) clade)"
    and "set leaves \<subseteq> set clade"
    and "\<forall>leaf \<in> set clade. md (organism leaf) \<noteq> None"
  shows "\<exists>tbl'. label_loop md (group_perc order (map (member_group md) clade)) m leaves tbl = Inr tbl'
           \<and> (\<forall>org. entry tbl' org = entry tbl org
                 @ map (\<lambda>leaf. if share md clade (member_group md leaf) = 50
                               then ''unspecified'' else m)
                     (filter (\<lambda>leaf. organism leaf = org) leaves))"
  using assms(2)
proof (induction leaves arbitrary: tbl)
  case Nil
  then show ?case by simp
next
  case (Cons leaf leaves)
  let ?gp = "group_perc order (map (member_group md) clade)"
  let ?lab = "\<lambda>leaf. if share md clade (member_group md leaf) = 50 then ''unspecified'' else m"
  from Cons.prems have mem: "leaf \<in> set clade" and sub: "set leaves \<subseteq> set clade" by auto
  from mem assms(3) obtain r where r: "md (organism leaf) = Some r" by auto
  then have g: "group r = member_group md leaf" by (simp add: member_group_def)
  have "member_group md leaf \<in> set order" using mem assms(1) by simp
  then have look: "map_of ?gp (group r) = Some (share md clade (member_group md leaf))"
    by (simp only: g group_perc_share map_of_group_perc if_True)
  have step: "label_loop md ?gp m (leaf # leaves) tbl
                = label_loop md ?gp m leaves (append_entry tbl (organism leaf) (?lab leaf))"
    by (simp add: r look Let_def)
  from Cons.IH[OF sub, of "append_entry tbl (organism leaf) (?lab leaf)"]
  obtain tbl' where t: "label_loop md ?gp m leaves (append_entry tbl (organism leaf) (?lab leaf)) = Inr tbl'"
    "\<forall>org. entry tbl' org = entry (append_entry tbl (organism leaf) (?lab leaf)) org
                 @ map ?lab (filter (\<lambda>leaf. organism leaf = org) leaves)"
    by blast
  have "entry tbl' org = entry tbl org @ map ?lab (filter (\<lambda>leaf. organism leaf = org) (leaf # leaves))"
    for org
    using t(2) by (simp add: entry_append_entry)
  with t(1) step show ?case by simp
qed


lemma problematic_loop_entries:
  assumes "\<forall>xs. distinct (set_iter xs) \<and> set (set_iter xs) = set xs"
    and "\<forall>clade \<in> set clades. clade \<noteq> [] \<and> (\<forall>leaf \<in> set clade. md (organism leaf) \<noteq> None)"
  shows "\<exists>tbl'. problematic_loop set_iter md clades tbl = Inr tbl'
           \<and> (\<forall>org. entry tbl' org = entry tbl org
                 @ concat (map (\<lambda>clade.
                     map (\<lambda>leaf. if share md clade (member_group md leaf) = 50
                                  then ''unspecified'' else dominant set_iter md clade)
                       (filter (\<lambda>leaf. organism leaf = org) clade)) clades))"
  using assms(2)
proof (induction clades arbitrary: tbl)
  case Nil
  then show ?case by simp
next
  case (Cons clade clades)
  let ?taxons = "map (member_group md) clade"
  let ?gp = "group_perc (set_iter ?taxons) ?taxons"
  let ?lab = "\<lambda>clade leaf. if share md clade (member_group md leaf) = 50
                           then ''unspecified'' else dominant set_iter md clade"
  from Cons.prems have ne: "clade \<noteq> []"
    and known: "\<forall>leaf \<in> set clade. md (organism leaf) \<noteq> None"
    and rest: "\<forall>clade \<in> set clades. clade \<noteq> [] \<and> (\<forall>leaf \<in> set clade. md (organism leaf) \<noteq> None)"
    by auto
  have ord: "set (set_iter ?taxons) = set ?taxons" using assms(1) by blast
  have tx: "clade_taxons md clade = Inr ?taxons" by (rule clade_taxons_known[OF known])
  have mx: "py_max_key ?gp = Inr (dominant set_iter md clade)"
    by (rule py_max_key_dominant[of set_iter md clade, OF ord ne])
  from label_loop_entries[OF ord subset_refl known, of "dominant set_iter md clade" tbl]
  obtain tbl1 where l: "label_loop md ?gp (dominant set_iter md clade) clade tbl = Inr tbl1"
    "\<forall>org. entry tbl1 org = entry tbl org
                 @ map (?lab clade) (filter (\<lambda>leaf. organism leaf = org) clade)"
    by blast
  have step: "problematic_loop set_iter md (clade # clades) tbl
                = problematic_loop set_iter md clades tbl1"
    by (simp add: tx mx l(1) Let_def)
  from Cons.IH[OF rest, of tbl1]
  obtain tbl' where t: "problematic_loop set_iter md clades tbl1 = Inr tbl'"
    "\<forall>org. entry tbl' org = entry tbl1 org
       @ concat (map (\<lambda>clade. map (?lab clade) (filter (\<lambda>leaf. organism leaf = org) clade)) clades)"
    by blast
  have "entry tbl' org = entry tbl org
       @ concat (map (\<lambda>clade. map (?lab clade) (filter (\<lambda>leaf. organism leaf = org) clade))
                   (clade # clades))" for org
    using t(2) l(2) by simp
  with t(1) step show ?case by simp
qed

lemma half_share:
  assumes "g1 \<noteq> g2" and "member_group md ` set clade = {g1, g2}"
    and "count_list (map (member_group md) clade) g1 = count_list (map (member_group md) clade) g2"
    and "leaf \<in> set clade"
  shows "share md clade (member_group md leaf) = 50"
proof -
  let ?taxons = "map (member_group md) clade"
  have "sum (count_list ?taxons) {g1, g2} = length ?taxons"
    using assms(2) by (intro sum_count_set) auto
  then have len: "length clade = 2 * count_list ?taxons g1"
    using assms(1,3) by simp
  have pos: "length clade > 0" using assms(4) by (cases clade) auto
  have "member_group md leaf \<in> {g1, g2}" using assms(2,4) by blast
  then have c: "count_list ?taxons (member_group md leaf) = count_list ?taxons g1"
    using assms(3) by auto
  have "real (length clade) = 2 * real (count_list ?taxons g1)" using len by simp
  moreover have "real (count_list ?taxons g1) > 0" using len pos by simp
  ultimately show ?thesis unfolding share_def c by simp
qed

text \<open>
  C7. For clades that are not empty and whose members the Taxon Directory knows (and any
  iteration order of Python's sets): the aggregator returns a table in which the list of
  every organism is, clade after clade and member after member, the marker
  \<open>unspecified\<close> for a member whose own group's share is exactly 50, and the clade's
  dominant group otherwise; the dominant group is the group of a member and no member's
  group has a larger share; and in a clade split evenly between two groups every
  member's share is 50, so every member receives \<open>unspecified\<close>.
\<close>

theorem problematic_labels:
  assumes "\<forall>xs. distinct (set_iter xs) \<and> set (set_iter xs) = set xs"
    and "\<forall>clade \<in> set clades. clade \<noteq> [] \<and> (\<forall>leaf \<in> set clade. md (organism leaf) \<noteq> None)"
  shows "(\<exists>tbl. problematic set_iter md clades = Inr tbl
           \<and> (\<forall>org. entry tbl org =
                 concat (map (\<lambda>clade.
                     map (\<lambda>leaf. if share md clade (member_group md leaf) = 50
                                  then ''unspecified'' else dominant set_iter md clade)
                       (filter (\<lambda>leaf. organism leaf = org) clade)) clades)))
       \<and> (\<forall>clade \<in> set clades.
            (\<exists>leaf \<in> set clade. dominant set_iter md clade = member_group md leaf)
            \<and> (\<forall>leaf \<in> set clade.
                  share md clade (member_group md leaf)
                    \<le> share md clade (dominant set_iter md clade)))
       \<and> (\<forall>clade \<in> set clades. \<forall>g1 g2.
            g1 \<noteq> g2 \<and> member_group md ` set clade = {g1, g2}
            \<and> count_list (map (member_group md) clade) g1
                = count_list (map (member_group md) clade) g2
            \<longrightarrow> (\<forall>leaf \<in> set clade. share md clade (member_group md leaf) = 50))"
proof (intro conjI ballI allI impI)
  from problematic_loop_entries[OF assms, of Map.empty]
  obtain tbl where t: "problematic_loop set_iter md clades Map.empty = Inr tbl"
    "\<forall>org. entry tbl org = entry Map.empty org
       @ concat (map (\<lambda>clade.
                     map (\<lambda>leaf. if share md clade (member_group md leaf) = 50
                                  then ''unspecified'' else dominant set_iter md clade)
                       (filter (\<lambda>leaf. organism leaf = org) clade)) clades)"
    by blast
  have e0: "entry Map.empty org = []" for org by (simp add: entry_def)
  have "\<forall>org. entry tbl org =
                 concat (map (\<lambda>clade.
                     map (\<lambda>leaf. if share md clade (member_group md leaf) = 50
                                  then ''unspecified'' else dominant set_iter md clade)
                       (filter (\<lambda>leaf. organism leaf = org) clade)) clades)"
    using t(2) unfolding e0 append_Nil .
  moreover have "problematic set_iter md clades = Inr tbl"
    using t(1) by (simp only: problematic_def)
  ultimately show "\<exists>tbl. problematic set_iter md clades = Inr tbl
           \<and> (\<forall>org. entry tbl org =
                 concat (map (\<lambda>clade.
                     map (\<lambda>leaf. if share md clade (member_group md leaf) = 50
                                  then ''unspecified'' else dominant set_iter md clade)
                       (filter (\<lambda>leaf. organism leaf = org) clade)) clades))"
    by (intro exI conjI)
next
  fix clade assume cl: "clade \<in> set clades"
  have ord: "set (set_iter (map (member_group md) clade)) = set (map (member_group md) clade)"
    using assms(1) by blast
  have ne: "clade \<noteq> []" using cl assms(2) by blast
  note dm = dominant_max[of set_iter md clade, OF ord ne]
  show "\<exists>leaf \<in> set clade. dominant set_iter md clade = member_group md leaf"
    using dm by (rule conjunct1)
  fix leaf assume "leaf \<in> set clade"
  with dm show "share md clade (member_group md leaf)
                  \<le> share md clade (dominant set_iter md clade)"
    by blast
next
  fix clade g1 g2 leaf
  assume "clade \<in> set clades"
    and h: "g1 \<noteq> g2 \<and> member_group md ` set clade = {g1, g2}
            \<and> count_list (map (member_group md) clade) g1
                = count_list (map (member_group md) clade) g2"
    and l: "leaf \<in> set clade"
  from h have h1: "g1 \<noteq> g2" and h2: "member_group md ` set clade = {g1, g2}"
    and h3: "count_list (map (member_group md) clade) g1
                = count_list (map (member_group md) clade) g2" by blast+
  show "share md clade (member_group md leaf) = 50"
    by (rule half_share[OF h1 h2 h3 l])
qed

lemma example_organisms:
  "organism ''A_100'' = ''A''" "organism ''B_100'' = ''B''"
  "organism ''C_300'' = ''C''" "organism ''D_200'' = ''D''"
  by (simp_all add: organism_def py_split_def)

lemma example_member_groups:
  "member_group example_metadata ''A_100'' = ''Alpha''"
  "member_group example_metadata ''B_100'' = ''Alpha''"
  "member_group example_metadata ''C_300'' = ''Beta''"
  "member_group example_metadata ''D_200'' = ''Beta''"
  by (simp_all add: member_group_def example_organisms example_metadata_def)

theorem problematic_labels_witness:
  "\<exists>tbl. problematic remdups example_metadata
            [[''A_100'', ''C_300''], [''A_100'', ''B_100'', ''D_200'']] = Inr tbl
         \<and> entry tbl ''A'' = [''unspecified'', ''Alpha'']
         \<and> entry tbl ''C'' = [''unspecified'']
         \<and> entry tbl ''D'' = [''Alpha'']"
proof -
  let ?clades = "[[''A_100'', ''C_300''], [''A_100'', ''B_100'', ''D_200'']]"
  have h1: "\<forall>xs::string list. distinct (remdups xs) \<and> set (remdups xs) = set xs" by simp
  have h2: "\<forall>clade \<in> set ?clades. clade \<noteq> []
              \<and> (\<forall>leaf \<in> set clade. example_metadata (organism leaf) \<noteq> None)"
    by (simp add: example_organisms example_metadata_def)
  have s1: "share example_metadata [''A_100'', ''C_300''] ''Alpha'' = 50"
    "share example_metadata [''A_100'', ''C_300''] ''Beta'' = 50"
    by (simp_all add: share_def example_member_groups)
  have s2: "share example_metadata [''A_100'', ''B_100'', ''D_200''] ''Alpha'' = 200 / 3"
    "share example_metadata [''A_100'', ''B_100'', ''D_200''] ''Beta'' = 100 / 3"
    by (simp_all add: share_def example_member_groups)
  have d2: "dominant remdups example_metadata [''A_100'', ''B_100'', ''D_200''] = ''Alpha''"
    by (simp add: dominant_def group_perc_def example_member_groups)
  from problematic_labels[OF h1 h2, THEN conjunct1]
  obtain tbl where p: "problematic remdups example_metadata ?clades = Inr tbl"
    and ent: "\<And>org. entry tbl org =
                 concat (map (\<lambda>clade.
                     map (\<lambda>leaf. if share example_metadata clade (member_group example_metadata leaf) = 50
                                  then ''unspecified'' else dominant remdups example_metadata clade)
                       (filter (\<lambda>leaf. organism leaf = org) clade)) ?clades)"
    by blast
  have a: "entry tbl ''A'' = [''unspecified'', ''Alpha'']"
    by (simp add: ent example_organisms example_member_groups s1 s2 d2)
  have c: "entry tbl ''C'' = [''unspecified'']"
    by (simp add: ent example_organisms example_member_groups s1 s2 d2)
  have d: "entry tbl ''D'' = [''Alpha'']"
    by (simp add: ent example_organisms example_member_groups s1 s2 d2)
  show ?thesis using p a c d by blast
qed


section \<open>Backpropagation\<close>

lemma split_from_no_sep:
  "c \<notin> set xs \<Longrightarrow> split_from [c] acc xs = [rev acc @ xs]"
  by (induction xs arbitrary: acc) auto

lemma split_from_field:
  "c \<notin> set xs \<Longrightarrow> split_from [c] acc (xs @ c # rest) = (rev acc @ xs) # split_from [c] [] rest"
  by (induction xs arbitrary: acc) auto

lemma split_table_row:
  assumes "CHR 0x09 \<notin> set nm" and "CHR 0x09 \<notin> set grp" and "CHR 0x09 \<notin> set status"
  shows "py_split [CHR 0x09] (table_row nm grp status) = [nm, grp, status @ [CHR 0x0A]]"
proof -
  have "CHR 0x09 \<notin> set (status @ [CHR 0x0A])" using assms(3) by simp
  then have last: "split_from [CHR 0x09] [] (status @ [CHR 0x0A]) = [status @ [CHR 0x0A]]"
    using split_from_no_sep[of "CHR 0x09" "status @ [CHR 0x0A]" "[]"] by simp
  have "table_row nm grp status = nm @ CHR 0x09 # (grp @ CHR 0x09 # (status @ [CHR 0x0A]))"
    by (simp add: table_row_def)
  then have "py_split [CHR 0x09] (table_row nm grp status)
               = split_from [CHR 0x09] [] (nm @ CHR 0x09 # (grp @ CHR 0x09 # (status @ [CHR 0x0A])))"
    by (simp only: py_split_def)
  also have "\<dots> = nm # split_from [CHR 0x09] [] (grp @ CHR 0x09 # (status @ [CHR 0x0A]))"
    using split_from_field[OF assms(1), of "[]"] by simp
  also have "\<dots> = nm # grp # split_from [CHR 0x09] [] (status @ [CHR 0x0A])"
    using split_from_field[OF assms(2), of "[]"] by simp
  finally show ?thesis by (simp only: last)
qed

lemma strip_status:
  assumes "\<forall>ch \<in> set status. \<not> is_space ch"
  shows "py_strip (status @ [CHR 0x0A]) = status"
proof -
  have nl: "is_space (CHR 0x0A)" by (simp add: is_space_def)
  have front: "dropWhile is_space (status @ [CHR 0x0A]) = (if status = [] then [] else status @ [CHR 0x0A])"
    using assms nl by (cases status) auto
  have rear: "dropWhile is_space (rev status) = rev status"
    using assms by (cases "rev status") (auto simp: dropWhile_eq_self_iff dest: arg_cong[where f = set])
  show ?thesis
  proof (cases "status = []")
    case True
    then show ?thesis using nl by (simp add: py_strip_def)
  next
    case False
    then show ?thesis using front rear nl by (simp add: py_strip_def)
  qed
qed

lemma space_tab: "is_space (CHR 0x09)"
  by (simp add: is_space_def)

lemma backpropagate_table_row:
  assumes "CHR 0x09 \<notin> set nm" and "CHR 0x09 \<notin> set grp" and "\<forall>ch \<in> set status. \<not> is_space ch"
  shows "backpropagate_line cont_names (table_row nm grp status)
           = Inr (table_row nm grp (if nm \<in> cont_names then ''d'' else status))"
proof -
  have "CHR 0x09 \<notin> set status" using assms(3) space_tab by blast
  from split_table_row[OF assms(1,2) this] strip_status[OF assms(3)]
  show ?thesis by (simp add: backpropagate_line_def table_row_def Let_def)
qed

text \<open>
  C9. On a table whose rows were written as \<open>name\<close>, tab, \<open>group\<close>, tab, \<open>status\<close>,
  newline (no tab in the name or the group, no whitespace in the status code), the
  backpropagation writes one row for each row read, in the same order: the same row
  with the status \<open>d\<close> when the name is in the contaminant-name set, and the identical
  row otherwise.
\<close>

theorem backpropagate_rows:
  assumes "\<forall>(nm, grp, status) \<in> set rows.
             CHR 0x09 \<notin> set nm \<and> CHR 0x09 \<notin> set grp \<and> (\<forall>ch \<in> set status. \<not> is_space ch)"
  shows "backpropagate_contamination
           (map (\<lambda>(nm, grp, status). table_row nm grp status) rows) cont_names
         = Inr (map (\<lambda>(nm, grp, status).
                   table_row nm grp (if nm \<in> cont_names then ''d'' else status)) rows)"
  using assms
proof (induction rows)
  case Nil
  then show ?case by simp
next
  case (Cons row rows)
  obtain nm grp status where row: "row = (nm, grp, status)" by (cases row)
  from Cons.prems row have ok: "CHR 0x09 \<notin> set nm" "CHR 0x09 \<notin> set grp"
    "\<forall>ch \<in> set status. \<not> is_space ch" by auto
  from Cons.prems have "\<forall>(nm, grp, status) \<in> set rows.
             CHR 0x09 \<notin> set nm \<and> CHR 0x09 \<notin> set grp \<and> (\<forall>ch \<in> set status. \<not> is_space ch)"
    by simp
  from Cons.IH[OF this] backpropagate_table_row[OF ok, of cont_names] row
  show ?case by simp
qed

theorem backpropagate_rows_witness:
  "backpropagate_contamination
     [table_row ''Aus aus_100@A'' ''Alpha'' ''o'', table_row ''Xus xus_0_r1q_0@X'' ''Alpha'' ''p'']
     {''Xus xus_0_r1q_0@X''}
   = Inr [table_row ''Aus aus_100@A'' ''Alpha'' ''o'', table_row ''Xus xus_0_r1q_0@X'' ''Alpha'' ''d'']"
proof -
  let ?rows = "[(''Aus aus_100@A'', ''Alpha'', ''o''), (''Xus xus_0_r1q_0@X'', ''Alpha'', ''p'')]"
  have h: "\<forall>(nm, grp, status) \<in> set ?rows.
             CHR 0x09 \<notin> set nm \<and> CHR 0x09 \<notin> set grp \<and> (\<forall>ch \<in> set status. \<not> is_space ch)"
    by (simp add: is_space_def)
  from backpropagate_rows[OF h, of "{''Xus xus_0_r1q_0@X''}"] show ?thesis by simp
qed

end
